theory Spec2Isabelle
  imports Main
begin

section \<open>The giveaway cog of Mayushii (cogs/raffle.py)\<close>

text \<open>
  A shallow embedding of the class \<open>Raffle\<close>: the tables it reaches through its
  database session, its in-memory fields (\<open>self.raffle\<close>, \<open>self.roles\<close>,
  \<open>self.queue\<close>) and its commands, each as a function from the state before to the
  outcome and the state after.
\<close>

subsection \<open>Data\<close>

text \<open>
  The rows of the four tables. The source's column \<open>id\<close> is written \<open>giveaway_id\<close>,
  \<open>entry_id\<close>, \<open>role_id\<close>; the column \<open>giveaway\<close> of an entry and of a role is
  written \<open>entry_giveaway\<close> and \<open>role_giveaway\<close>. An entry's \<open>id\<close> is the
  participant's user id (\<open>Entry(id=user_id, giveaway=self.raffle.id)\<close>).
\<close>

record giveaway =
  giveaway_id :: int
  name :: string
  win_count :: int
  ongoing :: bool

record entry =
  entry_id :: int
  entry_giveaway :: int
  winner :: bool

record giveaway_role =
  role_id :: int
  role_giveaway :: int

text \<open>
  The invocation context of a command, as far as the cog reads it: the author's user id
  and the ids of the roles the author holds (\<open>discord.Role\<close> objects compare by id),
  and the author's membership age for the tenure check.
\<close>

record ctx =
  author_id :: int
  author_roles :: "int list"
  tenure_days :: int

text \<open>
  What the cog reads of the bot: the guild's roles and members (by id), the configured
  \<open>default_roles\<close>, the minimum tenure, and the members whose direct messages fail.
\<close>

record bot =
  guild_roles :: "int list"
  guild_members :: "int list"
  default_roles :: "int list"
  min_tenure_days :: int
  dm_closed :: "int list"

text \<open>
  The state of the cog. The first four fields are the tables behind \<open>self.s\<close>.
  \<open>raffle\<close> is \<open>self.raffle\<close>: a reference to a row of \<open>giveaways\<close>, held as the
  row's id, so that an attribute read or written through \<open>self.raffle\<close> is a read or
  write of that row. \<open>roles\<close> is \<open>self.roles\<close>, the resolved role objects by id,
  \<open>None\<close> for a lookup that found nothing. \<open>queue\<close> is \<open>self.queue\<close>, oldest first.
\<close>

record cog =
  giveaways :: "giveaway list"
  entries :: "entry list"
  giveaway_roles :: "giveaway_role list"
  blacklist :: "int list"
  raffle :: "int option"
  roles :: "int option list"
  queue :: "ctx list"

datatype error =
    AttributeError
  | IntegrityError
  | MultipleResultsFound
  | NoOnGoingRaffle
  | Blacklisted
  | TooNew

text \<open>The messages a command sends, one constructor per message of the source.\<close>

datatype reply =
    NotAllowedRole
  | AlreadyEntered
  | Accepted int
  | AlreadyRunning
  | Proposed
  | Started string int
  | Declined
  | AskCancel
  | Cancelled
  | Continues
  | NotEnoughParticipants
  | NoUsersToChoose
  | AndTheWinnerIs
  | Mention int
  | Congratulations
  | DeliveryFailure int
  | Finished nat
  | AlreadyBlacklisted int
  | BlacklistAdded int
  | NotBlacklisted int
  | BlacklistRemoved int
  | WinnerCountUpdated int

subsection \<open>The ledger\<close>

text \<open>
  Modelled from the spec: the Entry Ledger, that is the declarations of
  \<open>utils.database\<close> and the session behind \<open>self.s\<close>, which are not part of the
  source file. The spec's contract is used: every write is durable at once (so
  \<open>commit\<close> is no step of the model), \<open>listEntries\<close> gives the giveaway's entries in
  order, \<open>deleteEntry\<close> removes the entry from the ledger and \<open>markWinner\<close> sets its
  flag. The pair (id, giveaway) is the key of an entry and of a role, as the source's
  lookups \<open>get((user_id, self.raffle.id))\<close> and \<open>get((role.id, self.raffle.id))\<close>
  presuppose.
\<close>

definition raffle_entries :: "int \<Rightarrow> cog \<Rightarrow> entry list" where
  "raffle_entries gid st = filter (\<lambda>e. entry_giveaway e = gid) (entries st)"

definition raffle_roles :: "int \<Rightarrow> cog \<Rightarrow> giveaway_role list" where
  "raffle_roles gid st = filter (\<lambda>r. role_giveaway r = gid) (giveaway_roles st)"

definition same_entry :: "entry \<Rightarrow> entry \<Rightarrow> bool" where
  "same_entry e x \<longleftrightarrow> entry_id x = entry_id e \<and> entry_giveaway x = entry_giveaway e"

definition get_entry :: "int \<Rightarrow> int \<Rightarrow> cog \<Rightarrow> entry option" where
  "get_entry uid gid st =
     find (\<lambda>e. entry_id e = uid \<and> entry_giveaway e = gid) (entries st)"

definition add_entry :: "int \<Rightarrow> int \<Rightarrow> cog \<Rightarrow> cog" where
  "add_entry uid gid st =
     st\<lparr>entries := entries st @ [\<lparr>entry_id = uid, entry_giveaway = gid, winner = False\<rparr>]\<rparr>"

definition mark_winner :: "entry \<Rightarrow> cog \<Rightarrow> cog" where
  "mark_winner e st =
     st\<lparr>entries := map (\<lambda>x. if same_entry e x then x\<lparr>winner := True\<rparr> else x) (entries st)\<rparr>"

definition delete_entry :: "entry \<Rightarrow> cog \<Rightarrow> cog" where
  "delete_entry e st = st\<lparr>entries := filter (\<lambda>x. \<not> same_entry e x) (entries st)\<rparr>"

definition get_giveaway :: "int \<Rightarrow> cog \<Rightarrow> giveaway option" where
  "get_giveaway gid st = find (\<lambda>g. giveaway_id g = gid) (giveaways st)"

definition set_ongoing :: "int \<Rightarrow> bool \<Rightarrow> cog \<Rightarrow> cog" where
  "set_ongoing gid b st =
     st\<lparr>giveaways := map (\<lambda>g. if giveaway_id g = gid then g\<lparr>ongoing := b\<rparr> else g) (giveaways st)\<rparr>"

definition set_win_count :: "int \<Rightarrow> int \<Rightarrow> cog \<Rightarrow> cog" where
  "set_win_count gid v st =
     st\<lparr>giveaways := map (\<lambda>g. if giveaway_id g = gid then g\<lparr>win_count := v\<rparr> else g) (giveaways st)\<rparr>"

text \<open>
  Modelled from the spec: the unique id that the ledger gives a new giveaway, one more
  than the largest in use (giveaways are never deleted).
\<close>

definition fresh_id :: "cog \<Rightarrow> int" where
  "fresh_id st = fold max (map giveaway_id (giveaways st)) 0 + 1"

text \<open>
  \<open>self.raffle\<close> as a row: \<open>None\<close> when the slot is empty.
\<close>

definition current :: "cog \<Rightarrow> giveaway option" where
  "current st = (case raffle st of None \<Rightarrow> None | Some gid \<Rightarrow> get_giveaway gid st)"

subsection \<open>The winner draw\<close>

text \<open>
  \<open>random.choice\<close> is a stream of raw random numbers \<open>rnd\<close> and a position in it:
  the entry chosen from a pool of \<open>n\<close> entries at position \<open>i\<close> is number
  \<open>rnd i mod n\<close>. \<open>get_winner\<close> is reached from \<open>finish\<close> only, where
  \<open>self.raffle\<close> is set; its id is the argument \<open>gid\<close>. The result is what the
  call returns, the position in the stream after it, and the state after it. The loop
  ends because every turn that does not return deletes the chosen entry from the pool.

  \<^verbatim>\<open>
  def get_winner(self):
      while len(self.raffle.entries) >= 1:
          entry = random.choice(self.raffle.entries)
          if (winner := self.bot.guild.get_member(entry.id)) is not None:
              entry.winner = True
              self.s.commit()
              return winner
          self.s.delete(entry)
      return None
  \<close>
\<close>

function get_winner :: "bot \<Rightarrow> (nat \<Rightarrow> nat) \<Rightarrow> int \<Rightarrow> nat \<Rightarrow> cog \<Rightarrow> int option \<times> nat \<times> cog" where
  "get_winner b rnd gid i st =
     (if length (raffle_entries gid st) \<ge> 1 then
        (let e = raffle_entries gid st ! (rnd i mod length (raffle_entries gid st)) in
         if entry_id e \<in> set (guild_members b)
         then (Some (entry_id e), Suc i, mark_winner e st)
         else get_winner b rnd gid (Suc i) (delete_entry e st))
      else (None, i, st))"
  by pat_completeness auto

termination
proof (relation "measure (\<lambda>(b, rnd, gid, i, st). length (raffle_entries gid st))")
  show "wf (measure (\<lambda>(b, rnd, gid, i, st). length (raffle_entries gid st)))" by simp
next
  fix b :: bot and rnd :: "nat \<Rightarrow> nat" and gid :: int and i :: nat and st :: cog and e :: entry
  assume nonempty: "1 \<le> length (raffle_entries gid st)"
    and e: "e = raffle_entries gid st ! (rnd i mod length (raffle_entries gid st))"
  let ?es = "raffle_entries gid st"
  have "rnd i mod length ?es < length ?es"
    using nonempty by (cases ?es) simp_all
  then have mem: "e \<in> set ?es" unfolding e by (rule nth_mem)
  have eq: "raffle_entries gid (delete_entry e st) = filter (\<lambda>x. \<not> same_entry e x) ?es"
    by (simp add: raffle_entries_def delete_entry_def conj_commute)
  have "same_entry e e" by (simp add: same_entry_def)
  with mem have "length (filter (\<lambda>x. \<not> same_entry e x) ?es) < length ?es"
    by (intro length_filter_less) auto
  with eq show "((b, rnd, gid, Suc i, delete_entry e st), (b, rnd, gid, i, st))
      \<in> measure (\<lambda>(b, rnd, gid, i, st). length (raffle_entries gid st))"
    by simp
qed

declare get_winner.simps [simp del]

text \<open>
  The loop of \<open>finish\<close> that calls \<open>get_winner\<close> once per requested winner and
  collects what it returns, \<open>None\<close> included:
  \<^verbatim>\<open>
  winners = []
  for i in range(0, self.raffle.win_count):
      winners.append(self.get_winner())
  \<close>
\<close>

fun draw :: "bot \<Rightarrow> (nat \<Rightarrow> nat) \<Rightarrow> int \<Rightarrow> nat \<Rightarrow> nat \<Rightarrow> cog \<Rightarrow> int option list \<times> nat \<times> cog" where
  "draw b rnd gid 0 i st = ([], i, st)"
| "draw b rnd gid (Suc n) i st =
     (case get_winner b rnd gid i st of (w, i', st') \<Rightarrow>
        (case draw b rnd gid n i' st' of (ws, i'', st'') \<Rightarrow> (w # ws, i'', st'')))"

text \<open>\<open>list(filter(lambda a: a is not None, winners))\<close>\<close>

definition resolved :: "int option list \<Rightarrow> int list" where
  "resolved ws = List.map_filter (\<lambda>w. w) ws"

subsection \<open>Startup\<close>

text \<open>
  \<open>Raffle.__init__\<close>, run over the tables a previous process left (the in-memory
  fields of the argument are not read):
  \<^verbatim>\<open>
  self.raffle = self.s.query(Giveaway).filter_by(ongoing=True).scalar()
  self.roles = []
  if self.raffle and self.raffle.roles:
      for role in self.raffle.roles:
          if (drole := discord.utils.get(bot.guild.roles, id=role.id)) is None:
              self.s.query(GiveawayRole).get((role.id, self.raffle.id)).delete()
              self.s.commit()
          else:
              self.roles.append(drole)
  self.queue = asyncio.Queue()
  \<close>
  \<open>scalar()\<close> gives \<open>None\<close> for no row, the row for one, and raises
  \<open>MultipleResultsFound\<close> for more. The lookup by key gives \<open>None\<close> when no row
  has the key, and a method call on \<open>None\<close> raises \<open>AttributeError\<close>.
\<close>

definition get_role :: "int \<Rightarrow> int \<Rightarrow> cog \<Rightarrow> giveaway_role option" where
  "get_role rid gid st =
     find (\<lambda>r. role_id r = rid \<and> role_giveaway r = gid) (giveaway_roles st)"

text \<open>
  Modelled from the spec: \<open>delete()\<close> called on the row that the lookup found, a
  method of the declaration \<open>GiveawayRole\<close> in \<open>utils.database\<close>, which is not
  part of the source file. As the spec has it, the AllowedRole is deleted from the
  ledger, without error.
\<close>

definition delete_role :: "giveaway_role \<Rightarrow> cog \<Rightarrow> cog" where
  "delete_role r st =
     st\<lparr>giveaway_roles :=
          filter (\<lambda>x. \<not> (role_id x = role_id r \<and> role_giveaway x = role_giveaway r))
            (giveaway_roles st)\<rparr>"

fun resolve_roles :: "bot \<Rightarrow> int \<Rightarrow> giveaway_role list \<Rightarrow> cog \<Rightarrow> error + cog" where
  "resolve_roles b gid [] st = Inr st"
| "resolve_roles b gid (r # rs) st =
     (if role_id r \<notin> set (guild_roles b) then
        (case get_role (role_id r) gid st of
           None \<Rightarrow> Inl AttributeError
         | Some row \<Rightarrow> resolve_roles b gid rs (delete_role row st))
      else resolve_roles b gid rs (st\<lparr>roles := roles st @ [Some (role_id r)]\<rparr>))"

definition startup :: "bot \<Rightarrow> cog \<Rightarrow> error + cog" where
  "startup b db =
     (case filter ongoing (giveaways db) of
        [] \<Rightarrow> Inr (db\<lparr>raffle := None, roles := [], queue := []\<rparr>)
      | [g] \<Rightarrow>
          (case resolve_roles b (giveaway_id g) (raffle_roles (giveaway_id g) db)
                  (db\<lparr>raffle := Some (giveaway_id g), roles := []\<rparr>) of
             Inl e \<Rightarrow> Inl e
           | Inr st \<Rightarrow> Inr (st\<lparr>queue := []\<rparr>))
      | _ \<Rightarrow> Inl MultipleResultsFound)"

subsection \<open>Joining\<close>

text \<open>
  The check \<open>ongoing_raffle\<close>:
  \<^verbatim>\<open>
  if ctx.cog.raffle and ctx.cog.raffle.ongoing:
      return True
  raise NoOnGoingRaffle("There is no ongoing raffle.")
  \<close>
\<close>

definition ongoing_raffle :: "cog \<Rightarrow> bool" where
  "ongoing_raffle st = (case current st of None \<Rightarrow> False | Some g \<Rightarrow> ongoing g)"

text \<open>
  \<^verbatim>\<open>
  async def queue_empty(self):
      while not self.queue.empty():
          pass
  \<close>
  The loop body changes nothing and gives no other coroutine a turn, so on a queue that
  is not empty the loop does not end: the value \<open>None\<close>.
\<close>

partial_function (option) queue_empty :: "ctx list \<Rightarrow> unit option" where
  "queue_empty q = (if q \<noteq> [] then queue_empty q else Some ())"

declare queue_empty.simps [code]

text \<open>
  \<open>process_entry\<close> takes the oldest request of the queue (on an empty queue
  \<open>await self.queue.get()\<close> does not return: \<open>None\<close>).
  \<^verbatim>\<open>
  ctx = await self.queue.get()
  if self.raffle.roles:
      if not (
          any(role in ctx.author.roles for role in self.roles)
          or any(
              discord.utils.get(ctx.author.roles, id=role_id)
              for role_id in self.bot.config["default_roles"]
          )
      ):
          return await ctx.send("You are not allowed to participate!")
  user_id = ctx.author.id
  entry = self.s.query(Entry).get((user_id, self.raffle.id))
  if entry:
      return await ctx.send("You are already participating!")
  self.s.add(Entry(id=user_id, giveaway=self.raffle.id))
  self.s.commit()
  await ctx.send(f"{ctx.author.mention} now you are participating in the raffle!")
  self.queue.task_done()
  \<close>
  \<open>task_done\<close> counts finished requests for \<open>Queue.join\<close>, which the cog never
  calls; the count is not part of the state.
\<close>

definition holds_cached_role :: "ctx \<Rightarrow> cog \<Rightarrow> bool" where
  "holds_cached_role c st =
     list_ex (\<lambda>r. case r of None \<Rightarrow> False | Some rid \<Rightarrow> rid \<in> set (author_roles c)) (roles st)"

definition holds_default_role :: "bot \<Rightarrow> ctx \<Rightarrow> bool" where
  "holds_default_role b c = list_ex (\<lambda>rid. rid \<in> set (author_roles c)) (default_roles b)"

definition process_entry :: "bot \<Rightarrow> cog \<Rightarrow> ((error + reply list) \<times> cog) option" where
  "process_entry b st =
     (case queue st of
        [] \<Rightarrow> None
      | c # q \<Rightarrow>
          (let st1 = st\<lparr>queue := q\<rparr> in
           case raffle st1 of
             None \<Rightarrow> Some (Inl AttributeError, st1)
           | Some gid \<Rightarrow>
               if raffle_roles gid st1 \<noteq> [] \<and>
                  \<not> (holds_cached_role c st1 \<or> holds_default_role b c)
               then Some (Inr [NotAllowedRole], st1)
               else
                 (case get_entry (author_id c) gid st1 of
                    Some e \<Rightarrow> Some (Inr [AlreadyEntered], st1)
                  | None \<Rightarrow>
                      Some (Inr [Accepted (author_id c)], add_entry (author_id c) gid st1))))"

text \<open>
  Modelled from the spec: the checks \<open>not_blacklisted\<close> and \<open>not_new\<close>, functions
  of \<open>utils.checks\<close>, which is not part of the source file. As the spec has them, the
  first fails with \<open>Blacklisted\<close> when the participant is in the blacklist, the second
  with \<open>TooNew\<close> when the membership age is below the configured minimum.
\<close>

definition not_blacklisted :: "ctx \<Rightarrow> cog \<Rightarrow> bool" where
  "not_blacklisted c st \<longleftrightarrow> author_id c \<notin> set (blacklist st)"

definition not_new :: "bot \<Rightarrow> ctx \<Rightarrow> bool" where
  "not_new b c \<longleftrightarrow> min_tenure_days b \<le> tenure_days c"

text \<open>
  The command \<open>join\<close>: its checks in the order the framework runs them, then
  \<^verbatim>\<open>
  await self.queue.put(ctx)
  await self.process_entry()
  \<close>
\<close>

definition join :: "bot \<Rightarrow> ctx \<Rightarrow> cog \<Rightarrow> ((error + reply list) \<times> cog) option" where
  "join b c st =
     (if \<not> not_blacklisted c st then Some (Inl Blacklisted, st)
      else if \<not> not_new b c then Some (Inl TooNew, st)
      else if \<not> ongoing_raffle st then Some (Inl NoOnGoingRaffle, st)
      else process_entry b (st\<lparr>queue := queue st @ [c]\<rparr>))"

subsection \<open>Creating\<close>

text \<open>
  \<^verbatim>\<open>
  def create_raffle(self, name: str, winners: int, roles: List[int]):
      raffle = Giveaway(name=name, win_count=winners)
      self.s.add(raffle)
      self.s.commit()
      if roles:
          self.s.add_all(
              [GiveawayRole(id=role_id, giveaway=raffle.id) for role_id in roles]
          )
          self.s.commit()
          self.roles = [
              discord.utils.get(self.bot.guild.roles, id=role_id)
              for role_id in self.raffle.roles
          ]
      return raffle
  \<close>
  The list comprehension reads \<open>self.raffle.roles\<close>, not \<open>raffle.roles\<close> nor
  \<open>roles\<close>: with \<open>self.raffle\<close> being \<open>None\<close> the read raises
  \<open>AttributeError\<close>, after both commits. With \<open>self.raffle\<close> set, the comprehension
  runs over the role rows of that other giveaway and looks each row up as if it were a
  role id, which finds nothing.

\<close>

text \<open>
  Modelled from the spec: the constructor of the declaration \<open>Giveaway\<close> in
  \<open>utils.database\<close>, which is not part of the source file and sets the default of
  \<open>ongoing\<close>. As the spec has it, a new Giveaway is persisted with \<open>ongoing\<close> true.
\<close>

definition new_giveaway :: "int \<Rightarrow> string \<Rightarrow> int \<Rightarrow> giveaway" where
  "new_giveaway gid nm winners =
     \<lparr>giveaway_id = gid, name = nm, win_count = winners, ongoing = True\<rparr>"

text \<open>
  Modelled from the spec: \<open>add_all\<close> of the new \<open>GiveawayRole\<close> rows and the commit
  after it, the ledger's \<open>addAllowedRoles\<close>. The pair (id, giveaway) being the key of
  an AllowedRole, a batch that holds a role id twice is refused with \<open>IntegrityError\<close>
  and nothing of it is stored.
\<close>

definition add_roles :: "int \<Rightarrow> int list \<Rightarrow> cog \<Rightarrow> error + cog" where
  "add_roles gid rs st =
     (if \<not> distinct rs then Inl IntegrityError
      else Inr (st\<lparr>giveaway_roles := giveaway_roles st @
                  map (\<lambda>rid. \<lparr>role_id = rid, role_giveaway = gid\<rparr>) rs\<rparr>))"

definition create_raffle :: "bot \<Rightarrow> string \<Rightarrow> int \<Rightarrow> int list \<Rightarrow> cog \<Rightarrow> (error + int) \<times> cog" where
  "create_raffle b nm winners rs st =
     (let gid = fresh_id st;
          st1 = st\<lparr>giveaways := giveaways st @ [new_giveaway gid nm winners]\<rparr>
      in if rs \<noteq> [] then
           (case add_roles gid rs st1 of
              Inl e \<Rightarrow> (Inl e, st1)
            | Inr st2 \<Rightarrow>
                (case raffle st2 of
                   None \<Rightarrow> (Inl AttributeError, st2)
                 | Some old \<Rightarrow>
                     (Inr gid, st2\<lparr>roles := map (\<lambda>r. None) (raffle_roles old st2)\<rparr>)))
         else (Inr gid, st1))"

text \<open>
  The command \<open>create\<close>. \<open>answer\<close> is what \<open>wait_for_answer\<close> returns; \<open>rs\<close>
  is \<open>[role.id for role in roles] if roles else []\<close>.
  \<^verbatim>\<open>
  if self.raffle:
      return await ctx.send("There is an already ongoing giveaway!")
  ...
  if await wait_for_answer(ctx):
      self.raffle = self.create_raffle(
          name, winners, [role.id for role in roles] if roles else []
      )
      await ctx.send(f"Started giveaway {name} with {winners} possible winners! ...")
  else:
      await ctx.send("Alright then.")
  \<close>
\<close>

definition create :: "bot \<Rightarrow> string \<Rightarrow> int \<Rightarrow> int list \<Rightarrow> bool \<Rightarrow> cog \<Rightarrow> (error + reply list) \<times> cog" where
  "create b nm winners rs answer st =
     (if raffle st \<noteq> None then (Inr [AlreadyRunning], st)
      else if answer then
        (case create_raffle b nm winners rs st of
           (Inl e, st') \<Rightarrow> (Inl e, st')
         | (Inr gid, st') \<Rightarrow> (Inr [Proposed, Started nm winners], st'\<lparr>raffle := Some gid\<rparr>))
      else (Inr [Proposed, Declined], st))"

subsection \<open>Cancelling, finishing, modifying\<close>

text \<open>
  \<^verbatim>\<open>
  await ctx.send("Are you sure you want to cancel current giveaway?")
  if await wait_for_answer(ctx):
      self.raffle.ongoing = False
      self.raffle = None
      self.s.commit()
      return await ctx.send("Giveaway cancelled.")
  await ctx.send("And the raffle continues.")
  \<close>
  The check \<open>ongoing_raffle\<close> runs before the body, here and in \<open>finish\<close> and
  \<open>winner_count\<close>.
\<close>

definition cancel :: "bool \<Rightarrow> cog \<Rightarrow> (error + reply list) \<times> cog" where
  "cancel answer st =
     (case current st of
        None \<Rightarrow> (Inl NoOnGoingRaffle, st)
      | Some g \<Rightarrow>
          if \<not> ongoing g then (Inl NoOnGoingRaffle, st)
          else if answer then
            (Inr [AskCancel, Cancelled], (set_ongoing (giveaway_id g) False st)\<lparr>raffle := None\<rparr>)
          else (Inr [AskCancel, Continues], st))"

text \<open>
  The body of \<open>finish\<close> after the wait for the queue, for the current giveaway \<open>gid\<close>
  with winner count \<open>k\<close>:
  \<^verbatim>\<open>
  winners = []
  for i in range(0, self.raffle.win_count):
      winners.append(self.get_winner())
  winners = list(filter(lambda a: a is not None, winners))
  if len(winners) < self.raffle.win_count:
      await ctx.send("Not enough participants for giveaway!")
      if not winners:
          await ctx.send("No users to choose...")
          self.raffle.ongoing = True
          return
  await ctx.send("And the winner is....!!")
  async with ctx.channel.typing():
      await asyncio.sleep(5)
      for user in winners:
          await ctx.send(f"{user.mention}")
      await ctx.send("Congratulations")
  for user in winners:
      try:
          await user.send(f"You're the {self.raffle.name} raffle winner!!")
      except (discord.HTTPException, discord.Forbidden):
          await ctx.send(f"Failed to send message to winner {user.mention}!")
  self.s.commit()
  await ctx.send(f"Giveaway finished with {len(self.raffle.entries)} participants.")
  self.raffle = None
  \<close>
\<close>

definition finish_draw :: "bot \<Rightarrow> (nat \<Rightarrow> nat) \<Rightarrow> int \<Rightarrow> int \<Rightarrow> cog \<Rightarrow> (error + reply list) \<times> cog" where
  "finish_draw b rnd gid k st =
     (case draw b rnd gid (nat k) 0 st of (ws, i, st') \<Rightarrow>
        (let winners = resolved ws in
         if int (length winners) < k \<and> winners = []
         then (Inr [NotEnoughParticipants, NoUsersToChoose], set_ongoing gid True st')
         else
           (Inr ((if int (length winners) < k then [NotEnoughParticipants] else []) @
                 [AndTheWinnerIs] @ map Mention winners @ [Congratulations] @
                 map DeliveryFailure (filter (\<lambda>u. u \<in> set (dm_closed b)) winners) @
                 [Finished (length (raffle_entries gid st'))]),
            st'\<lparr>raffle := None\<rparr>)))"

text \<open>
  \<^verbatim>\<open>
  self.raffle.ongoing = False
  self.s.commit()
  await asyncio.wait_for(self.queue_empty(), timeout=None)
  \<close>
  and then the body above.
\<close>

definition finish :: "bot \<Rightarrow> (nat \<Rightarrow> nat) \<Rightarrow> cog \<Rightarrow> ((error + reply list) \<times> cog) option" where
  "finish b rnd st =
     (case current st of
        None \<Rightarrow> Some (Inl NoOnGoingRaffle, st)
      | Some g \<Rightarrow>
          if \<not> ongoing g then Some (Inl NoOnGoingRaffle, st)
          else
            (case queue_empty (queue st) of
               None \<Rightarrow> None
             | Some u \<Rightarrow>
                 Some (finish_draw b rnd (giveaway_id g) (win_count g)
                         (set_ongoing (giveaway_id g) False st))))"

text \<open>
  \<^verbatim>\<open>
  async def winner_count(self, ctx, value: int):
      self.raffle.win_count = value
      self.s.commit()
      await ctx.send(f"Updated number of winners to {value}")
  \<close>
\<close>

definition winner_count :: "int \<Rightarrow> cog \<Rightarrow> (error + reply list) \<times> cog" where
  "winner_count v st =
     (case current st of
        None \<Rightarrow> (Inl NoOnGoingRaffle, st)
      | Some g \<Rightarrow>
          if \<not> ongoing g then (Inl NoOnGoingRaffle, st)
          else (Inr [WinnerCountUpdated v], set_win_count (giveaway_id g) v st))"

text \<open>The blacklist commands \<open>add\<close> and \<open>remove\<close>.\<close>

definition blacklist_add :: "int \<Rightarrow> cog \<Rightarrow> (error + reply list) \<times> cog" where
  "blacklist_add m st =
     (if m \<in> set (blacklist st) then (Inr [AlreadyBlacklisted m], st)
      else (Inr [BlacklistAdded m], st\<lparr>blacklist := blacklist st @ [m]\<rparr>))"

definition blacklist_remove :: "int \<Rightarrow> cog \<Rightarrow> (error + reply list) \<times> cog" where
  "blacklist_remove m st =
     (if m \<notin> set (blacklist st) then (Inr [NotBlacklisted m], st)
      else (Inr [BlacklistRemoved m], st\<lparr>blacklist := filter (\<lambda>x. x \<noteq> m) (blacklist st)\<rparr>))"

subsection \<open>Runs\<close>

text \<open>
  One event is a command (or a restart of the process) together with the bot as it is
  when the event happens. A run starts from the empty database with the construction of
  the cog. An event that leaves no cog state behind (a command that does not return, a
  construction that raises) ends the run: \<open>None\<close>. The commands \<open>info\<close> and the help
  of the command groups change nothing and are no events.
\<close>

datatype command =
    Join ctx
  | Create string int "int list" bool
  | Cancel bool
  | Finish "nat \<Rightarrow> nat"
  | WinnerCount int
  | BlacklistAdd int
  | BlacklistRemove int
  | Restart

fun step :: "bot \<Rightarrow> command \<Rightarrow> cog \<Rightarrow> cog option" where
  "step b (Join c) st = map_option snd (join b c st)"
| "step b (Create nm winners rs answer) st = Some (snd (create b nm winners rs answer st))"
| "step b (Cancel answer) st = Some (snd (cancel answer st))"
| "step b (Finish rnd) st = map_option snd (finish b rnd st)"
| "step b (WinnerCount v) st = Some (snd (winner_count v st))"
| "step b (BlacklistAdd m) st = Some (snd (blacklist_add m st))"
| "step b (BlacklistRemove m) st = Some (snd (blacklist_remove m st))"
| "step b Restart st = (case startup b st of Inl e \<Rightarrow> None | Inr st' \<Rightarrow> Some st')"

fun run :: "(bot \<times> command) list \<Rightarrow> cog \<Rightarrow> cog option" where
  "run [] st = Some st"
| "run ((b, c) # evs) st = (case step b c st of None \<Rightarrow> None | Some st' \<Rightarrow> run evs st')"

definition empty_db :: cog where
  "empty_db = \<lparr>giveaways = [], entries = [], giveaway_roles = [], blacklist = [],
               raffle = None, roles = [], queue = []\<rparr>"

section \<open>Notions used in the properties\<close>

text \<open>
  The entries of a giveaway whose participant the membership provider still resolves.
\<close>

definition resolvable_entries :: "bot \<Rightarrow> int \<Rightarrow> cog \<Rightarrow> entry list" where
  "resolvable_entries b gid st =
     filter (\<lambda>e. entry_id e \<in> set (guild_members b)) (raffle_entries gid st)"

text \<open>
  The spec's reading of ``the participant holds an allowed role'': one of the giveaway's
  AllowedRoles in the ledger is among the participant's roles. The code asks
  \<open>holds_cached_role\<close> instead, over \<open>self.roles\<close>.
\<close>

definition holds_allowed_role :: "ctx \<Rightarrow> int \<Rightarrow> cog \<Rightarrow> bool" where
  "holds_allowed_role c gid st =
     list_ex (\<lambda>r. role_id r \<in> set (author_roles c)) (raffle_roles gid st)"

definition counts_positive :: "cog \<Rightarrow> bool" where
  "counts_positive st = list_all (\<lambda>g. 0 < win_count g) (giveaways st)"

fun positive_count :: "command \<Rightarrow> bool" where
  "positive_count (Create nm winners rs answer) = (0 < winners)"
| "positive_count (WinnerCount v) = (0 < v)"
| "positive_count c = True"

text \<open>
  What every reachable state satisfies: the queue is empty between commands, every role
  row belongs to a stored giveaway, and when the current giveaway has role rows,
  \<open>self.roles\<close> holds exactly their role ids.
\<close>

definition refs_ok :: "cog \<Rightarrow> bool" where
  "refs_ok st \<longleftrightarrow> role_giveaway ` set (giveaway_roles st) \<subseteq> giveaway_id ` set (giveaways st)"

definition cache_ok :: "cog \<Rightarrow> bool" where
  "cache_ok st \<longleftrightarrow>
     (case raffle st of
        None \<Rightarrow> True
      | Some gid \<Rightarrow>
          raffle_roles gid st = [] \<or>
          set (roles st) = (\<lambda>r. Some (role_id r)) ` set (raffle_roles gid st))"

definition consistent :: "cog \<Rightarrow> bool" where
  "consistent st \<longleftrightarrow> queue st = [] \<and> refs_ok st \<and> cache_ok st"

text \<open>
  A step that leaves the queue, the ids of the giveaways, the role rows and
  \<open>self.roles\<close> as they are, and the slot as it is or empty.
\<close>

definition keeps_roles :: "cog \<Rightarrow> cog \<Rightarrow> bool" where
  "keeps_roles st st' \<longleftrightarrow>
     queue st' = queue st \<and>
     map giveaway_id (giveaways st') = map giveaway_id (giveaways st) \<and>
     giveaway_roles st' = giveaway_roles st \<and> roles st' = roles st \<and>
     (raffle st' = raffle st \<or> raffle st' = None)"

text \<open>
  No two role rows of a reachable state have the same key: the ledgers that the cog itself
  has written satisfy what startup needs to end without error.
\<close>

definition keys_ok :: "cog \<Rightarrow> bool" where
  "keys_ok st \<longleftrightarrow> distinct (map (\<lambda>r. (role_id r, role_giveaway r)) (giveaway_roles st))"

subsection \<open>Concrete inputs\<close>

text \<open>
  A guild whose only member is 7 and whose only role is 5, and the cog with the single
  giveaway ``Spring'' open: winner count \<open>k\<close>, entries \<open>es\<close>, no role restriction.
\<close>

definition guild7 :: bot where
  "guild7 = \<lparr>guild_roles = [5], guild_members = [7], default_roles = [],
             min_tenure_days = 0, dm_closed = []\<rparr>"

definition member7 :: ctx where
  "member7 = \<lparr>author_id = 7, author_roles = [], tenure_days = 0\<rparr>"

definition spring :: "int \<Rightarrow> entry list \<Rightarrow> cog" where
  "spring k es =
     \<lparr>giveaways = [\<lparr>giveaway_id = 1, name = ''Spring'', win_count = k, ongoing = True\<rparr>],
      entries = es, giveaway_roles = [], blacklist = [],
      raffle = Some 1, roles = [], queue = []\<rparr>"

definition entry7 :: "bool \<Rightarrow> entry" where
  "entry7 w = \<lparr>entry_id = 7, entry_giveaway = 1, winner = w\<rparr>"

section \<open>Unfolding\<close>

text \<open>The definitions behind \<open>create\<close> and behind \<open>join\<close>, for evaluation.\<close>

lemmas create_defs = create_def create_raffle_def new_giveaway_def add_roles_def

lemmas join_defs = join_def not_blacklisted_def not_new_def

section \<open>Properties of the winner draw\<close>

lemma delete_entry_fields [simp]:
  "giveaways (delete_entry e st) = giveaways st"
  "giveaway_roles (delete_entry e st) = giveaway_roles st"
  "blacklist (delete_entry e st) = blacklist st"
  "raffle (delete_entry e st) = raffle st"
  "roles (delete_entry e st) = roles st"
  "queue (delete_entry e st) = queue st"
  by (simp_all add: delete_entry_def)

lemma mark_winner_fields [simp]:
  "giveaways (mark_winner e st) = giveaways st"
  "giveaway_roles (mark_winner e st) = giveaway_roles st"
  "blacklist (mark_winner e st) = blacklist st"
  "raffle (mark_winner e st) = raffle st"
  "roles (mark_winner e st) = roles st"
  "queue (mark_winner e st) = queue st"
  by (simp_all add: mark_winner_def)

lemma raffle_entries_mark_winner:
  "raffle_entries gid (mark_winner e st) =
     map (\<lambda>x. if same_entry e x then x\<lparr>winner := True\<rparr> else x) (raffle_entries gid st)"
  by (simp add: raffle_entries_def mark_winner_def filter_map comp_def if_distrib [of entry_giveaway])


lemma resolvable_entries_mark_winner:
  "map entry_id (resolvable_entries b gid (mark_winner e st)) =
     map entry_id (resolvable_entries b gid st)"
  by (simp add: resolvable_entries_def raffle_entries_mark_winner filter_map comp_def
      if_distrib [of entry_id])

lemma resolvable_entries_delete_entry:
  "entry_id e \<notin> set (guild_members b) \<Longrightarrow>
     resolvable_entries b gid (delete_entry e st) = resolvable_entries b gid st"
  unfolding resolvable_entries_def raffle_entries_def delete_entry_def
  by (auto simp: same_entry_def intro!: filter_cong)


text \<open>
  The three ways through one turn of the loop of \<open>get_winner\<close>, as a proof rule: a
  property of call and result holds if it holds on an empty pool, for a resolved choice,
  and is handed back through the retry after a deletion.
\<close>

lemma get_winner_rule [consumes 1, case_names empty found retry]:
  assumes "get_winner b rnd gid i st = (w, i', st')"
    and "\<And>i st. raffle_entries gid st = [] \<Longrightarrow> P i st None i st"
    and "\<And>i st e. e \<in> set (raffle_entries gid st) \<Longrightarrow>
        entry_id e \<in> set (guild_members b) \<Longrightarrow>
        P i st (Some (entry_id e)) (Suc i) (mark_winner e st)"
    and "\<And>i st e w i' st'. e \<in> set (raffle_entries gid st) \<Longrightarrow>
        entry_id e \<notin> set (guild_members b) \<Longrightarrow>
        P (Suc i) (delete_entry e st) w i' st' \<Longrightarrow> P i st w i' st'"
  shows "P i st w i' st'"
  using assms
proof (induction b rnd gid i st rule: get_winner.induct)
  case (1 b rnd gid i st)
  note run = "1.prems"(1) and empty = "1.prems"(2) and found = "1.prems"(3)
    and retry = "1.prems"(4)
  let ?es = "raffle_entries gid st"
  let ?e = "?es ! (rnd i mod length ?es)"
  show ?case
  proof (cases "?es = []")
    case True
    with run have "w = None" "i' = i" "st' = st"
      by (simp_all add: get_winner.simps [of b rnd gid i st])
    with empty [OF True] show ?thesis by simp
  next
    case False
    then have len: "1 \<le> length ?es" by (cases ?es) simp_all
    from False have "rnd i mod length ?es < length ?es" by simp
    then have mem: "?e \<in> set ?es" by (rule nth_mem)
    show ?thesis
    proof (cases "entry_id ?e \<in> set (guild_members b)")
      case True
      with len run have "w = Some (entry_id ?e)" "i' = Suc i" "st' = mark_winner ?e st"
        by (simp_all add: get_winner.simps [of b rnd gid i st] Let_def)
      with found [OF mem True, of i] show ?thesis by simp
    next
      case False
      with len run
      have "get_winner b rnd gid (Suc i) (delete_entry ?e st) = (w, i', st')"
        by (simp add: get_winner.simps [of b rnd gid i st] Let_def)
      then have "P (Suc i) (delete_entry ?e st) w i' st'"
        by (rule "1.IH" [OF len refl False _ empty found retry])
      with mem False show ?thesis by (rule retry)
    qed
  qed
qed

lemma get_winner_frame:
  assumes "get_winner b rnd gid i st = (w, i', st')"
  shows "giveaways st' = giveaways st \<and> giveaway_roles st' = giveaway_roles st \<and>
     blacklist st' = blacklist st \<and> raffle st' = raffle st \<and> roles st' = roles st \<and>
     queue st' = queue st"
  using assms by (induction rule: get_winner_rule) simp_all

lemma get_winner_ids:
  assumes "get_winner b rnd gid i st = (w, i', st')"
  shows "map entry_id (resolvable_entries b gid st') = map entry_id (resolvable_entries b gid st)"
  using assms
  by (induction rule: get_winner_rule)
     (simp_all add: resolvable_entries_mark_winner resolvable_entries_delete_entry)

lemma get_winner_result:
  assumes "get_winner b rnd gid i st = (w, i', st')"
  shows "case w of None \<Rightarrow> resolvable_entries b gid st = [] \<and> raffle_entries gid st' = []
         | Some u \<Rightarrow> u \<in> entry_id ` set (resolvable_entries b gid st)"
  using assms
proof (induction rule: get_winner_rule)
  case (empty i st)
  then show ?case by (simp add: resolvable_entries_def)
next
  case (found i st e)
  then show ?case by (simp add: resolvable_entries_def)
next
  case (retry i st e w i' st')
  then show ?case by (auto simp: resolvable_entries_delete_entry split: option.splits)
qed


lemma resolved_Cons:
  "resolved (w # ws) = (case w of None \<Rightarrow> resolved ws | Some u \<Rightarrow> u # resolved ws)"
  by (simp add: resolved_def List.map_filter_simps split: option.splits)

lemma resolved_Nil: "resolved [] = []"
  by (simp add: resolved_def List.map_filter_simps)

lemma draw_frame:
  "draw b rnd gid n i st = (ws, i', st') \<Longrightarrow>
     giveaways st' = giveaways st \<and> giveaway_roles st' = giveaway_roles st \<and>
     blacklist st' = blacklist st \<and> raffle st' = raffle st \<and> roles st' = roles st \<and>
     queue st' = queue st"
proof (induction n arbitrary: i st ws i' st')
  case 0
  then show ?case by simp
next
  case (Suc n)
  obtain w i1 st1 where g: "get_winner b rnd gid i st = (w, i1, st1)"
    by (cases "get_winner b rnd gid i st") auto
  obtain ws2 where d: "draw b rnd gid n i1 st1 = (ws2, i', st')"
    using Suc.prems g by (auto split: prod.splits)
  from get_winner_frame [OF g] Suc.IH [OF d] show ?case by simp
qed

lemma draw_winners:
  "draw b rnd gid n i st = (ws, i', st') \<Longrightarrow>
     length (resolved ws) = (if resolvable_entries b gid st = [] then 0 else n) \<and>
     set (resolved ws) \<subseteq> entry_id ` set (resolvable_entries b gid st)"
proof (induction n arbitrary: i st ws i' st')
  case 0
  then show ?case by (auto simp: resolved_Nil)
next
  case (Suc n)
  obtain w i1 st1 where g: "get_winner b rnd gid i st = (w, i1, st1)"
    by (cases "get_winner b rnd gid i st") auto
  obtain ws2 where d: "draw b rnd gid n i1 st1 = (ws2, i', st')" and ws: "ws = w # ws2"
    using Suc.prems g by (auto split: prod.splits)
  have ids: "map entry_id (resolvable_entries b gid st1) = map entry_id (resolvable_entries b gid st)"
    by (rule get_winner_ids [OF g])
  then have same: "resolvable_entries b gid st1 = [] \<longleftrightarrow> resolvable_entries b gid st = []"
    by (metis map_is_Nil_conv)
  have img: "entry_id ` set (resolvable_entries b gid st1) = entry_id ` set (resolvable_entries b gid st)"
    using ids by (metis set_map)
  note IH = Suc.IH [OF d]
  show ?case
  proof (cases w)
    case None
    with get_winner_result [OF g] have "resolvable_entries b gid st = []" by simp
    with IH same img None ws show ?thesis by (simp add: resolved_Cons)
  next
    case (Some u)
    with get_winner_result [OF g] have u: "u \<in> entry_id ` set (resolvable_entries b gid st)" by simp
    then have "resolvable_entries b gid st \<noteq> []" by auto
    with IH same img Some ws u show ?thesis by (simp add: resolved_Cons)
  qed
qed


lemma queue_empty_Nil: "queue_empty [] = Some ()"
  by (simp add: queue_empty.simps)

lemma spring_reachable:
  "run [(guild7, Create ''Spring'' k [] True)] empty_db = Some (spring k [])"
  "run [(guild7, Create ''Spring'' k [] True), (guild7, Join member7)] empty_db
     = Some (spring k [entry7 False])"
  by (simp_all add: create_defs fresh_id_def empty_db_def spring_def
      join_defs process_entry_def ongoing_raffle_def current_def get_giveaway_def
      raffle_roles_def get_entry_def add_entry_def member7_def guild7_def entry7_def)

section \<open>The draw of \<open>finish\<close>\<close>

text \<open>
  C1. Claimed: the draw of \<open>finish\<close> samples without replacement, so the resolved
  winner list holds no participant twice. The code leaves a chosen entry in the pool
  (\<open>get_winner\<close> sets its flag and never reads it), so a later step can choose it
  again. With one entry, of the resolvable member 7, and a winner count of 2, whatever the
  random numbers, \<open>finish\<close> announces member 7 twice.
\<close>

theorem finish_same_member_wins_twice:
  "finish guild7 rnd (spring 2 [entry7 False]) =
     Some (Inr [AndTheWinnerIs, Mention 7, Mention 7, Congratulations, Finished 1],
           (spring 2 [entry7 True])
             \<lparr>giveaways := [\<lparr>giveaway_id = 1, name = ''Spring'', win_count = 2, ongoing = False\<rparr>],
              raffle := None\<rparr>)"
  by (simp add: finish_def finish_draw_def current_def get_giveaway_def set_ongoing_def
      queue_empty_Nil numeral_2_eq_2 get_winner.simps raffle_entries_def guild7_def spring_def
      entry7_def mark_winner_def same_entry_def resolved_Cons resolved_Nil)



section \<open>The lifecycle commands\<close>

lemma current_SomeD:
  "current st = Some g \<Longrightarrow> raffle st = Some (giveaway_id g) \<and> get_giveaway (giveaway_id g) st = Some g"
  by (auto simp: current_def get_giveaway_def find_Some_iff split: option.splits)

lemma set_ongoing_fields [simp]:
  "entries (set_ongoing gid v st) = entries st"
  "giveaway_roles (set_ongoing gid v st) = giveaway_roles st"
  "blacklist (set_ongoing gid v st) = blacklist st"
  "raffle (set_ongoing gid v st) = raffle st"
  "roles (set_ongoing gid v st) = roles st"
  "queue (set_ongoing gid v st) = queue st"
  by (simp_all add: set_ongoing_def)

lemma raffle_entries_set_ongoing [simp]:
  "raffle_entries gid (set_ongoing gid' v st) = raffle_entries gid st"
  by (simp add: raffle_entries_def)

lemma resolvable_entries_set_ongoing [simp]:
  "resolvable_entries b gid (set_ongoing gid' v st) = resolvable_entries b gid st"
  by (simp add: resolvable_entries_def)








lemma startup_empty_db: "startup b empty_db = Inr empty_db"
  by (simp add: startup_def empty_db_def)

text \<open>
  C3. Claimed: \<open>create\<close> from the state NONE with a non-empty list of role ids persists
  the giveaway and its roles, moves to OPEN and raises nothing. The code persists both and
  then reads \<open>self.raffle.roles\<close> while \<open>self.raffle\<close> is still \<open>None\<close>: the
  command ends in \<open>AttributeError\<close>, and the slot stays empty although an ongoing
  giveaway is stored.
\<close>

theorem create_with_role_raises_attribute_error:
  "create guild7 ''Spring'' 2 [5] True empty_db =
     (Inl AttributeError,
      \<lparr>giveaways = [\<lparr>giveaway_id = 1, name = ''Spring'', win_count = 2, ongoing = True\<rparr>],
       entries = [],
       giveaway_roles = [\<lparr>role_id = 5, role_giveaway = 1\<rparr>],
       blacklist = [], raffle = None, roles = [], queue = []\<rparr>)"
  by (simp add: create_defs fresh_id_def empty_db_def)

text \<open>
  C7. Claimed: in every reachable state at most one stored giveaway is ongoing. After the
  failed \<open>create\<close> of C3 the slot is empty while the stored giveaway is ongoing, so a
  second \<open>create\<close> is accepted: two stored giveaways are ongoing. (With the slot
  taken, \<open>create\<close> does answer \<open>AlreadyRunning\<close> and stores nothing.)
\<close>

theorem two_giveaways_ongoing:
  "map_option (\<lambda>st. (raffle st, map giveaway_id (giveaways st), map ongoing (giveaways st)))
     (run [(guild7, Create ''A'' 1 [5] True), (guild7, Create ''B'' 1 [] True)] empty_db)
   = Some (Some 2, [1, 2], [True, True])"
  by (simp add: create_defs fresh_id_def empty_db_def)

section \<open>Winner counts\<close>

lemma set_ongoing_win_counts [simp]:
  "map win_count (giveaways (set_ongoing gid v st)) = map win_count (giveaways st)"
  by (simp add: set_ongoing_def comp_def if_distrib [of win_count])

lemma counts_positive_map:
  "counts_positive st \<longleftrightarrow> list_all (\<lambda>k. 0 < k) (map win_count (giveaways st))"
  by (simp add: counts_positive_def list_all_iff)

lemma resolve_roles_giveaways:
  "resolve_roles b gid rs st = Inr st' \<Longrightarrow> giveaways st' = giveaways st"
  by (induction rs arbitrary: st) (auto simp: delete_role_def split: if_splits option.splits)

lemma startup_giveaways: "startup b st = Inr st' \<Longrightarrow> giveaways st' = giveaways st"
  by (auto simp: startup_def split: list.splits sum.splits dest!: resolve_roles_giveaways)

lemma process_entry_giveaways:
  "process_entry b st = Some (out, st') \<Longrightarrow> giveaways st' = giveaways st"
  by (auto simp: process_entry_def Let_def add_entry_def split: list.splits option.splits if_splits)

lemma join_giveaways: "join b c st = Some (out, st') \<Longrightarrow> giveaways st' = giveaways st"
  by (auto simp: join_defs split: if_splits dest!: process_entry_giveaways)

lemma finish_draw_win_counts:
  "map win_count (giveaways (snd (finish_draw b rnd gid k st))) = map win_count (giveaways st)"
proof -
  obtain ws i st' where d: "draw b rnd gid (nat k) 0 st = (ws, i, st')"
    by (cases "draw b rnd gid (nat k) 0 st") auto
  from draw_frame [OF d] have "giveaways st' = giveaways st" by simp
  then show ?thesis by (simp add: finish_draw_def d Let_def)
qed

lemma finish_win_counts:
  "finish b rnd st = Some (out, st') \<Longrightarrow>
     map win_count (giveaways st') = map win_count (giveaways st)"
  by (auto simp: finish_def split: option.splits if_splits)
     (metis finish_draw_win_counts set_ongoing_win_counts snd_conv)

lemma step_counts_positive:
  assumes "counts_positive st" and "positive_count c" and "step b c st = Some st'"
  shows "counts_positive st'"
proof (cases c)
  case (Join x)
  with assms show ?thesis by (auto simp: counts_positive_def dest: join_giveaways)
next
  case (Create nm winners rs answer)
  with assms show ?thesis
    by (auto simp: counts_positive_def create_defs Let_def
        split: if_splits option.splits)
next
  case (Cancel answer)
  with assms show ?thesis
    by (auto simp: counts_positive_map cancel_def split: option.splits if_splits)
next
  case (Finish rnd)
  with assms show ?thesis by (auto simp: counts_positive_map dest: finish_win_counts)
next
  case (WinnerCount v)
  with assms show ?thesis
    by (auto simp: counts_positive_def winner_count_def set_win_count_def list_all_iff
        split: option.splits if_splits)
next
  case (BlacklistAdd m)
  with assms show ?thesis by (auto simp: counts_positive_def blacklist_add_def)
next
  case (BlacklistRemove m)
  with assms show ?thesis by (auto simp: counts_positive_def blacklist_remove_def)
next
  case Restart
  with assms show ?thesis
    by (auto simp: counts_positive_def split: sum.splits dest: startup_giveaways)
qed

lemma run_counts_positive:
  "counts_positive st \<Longrightarrow> list_all (\<lambda>(b, c). positive_count c) evs \<Longrightarrow>
     run evs st = Some st' \<Longrightarrow> counts_positive st'"
proof (induction evs arbitrary: st)
  case Nil
  then show ?case by simp
next
  case (Cons ev evs)
  obtain b c where ev: "ev = (b, c)" by (cases ev)
  with Cons.prems obtain st1 where s: "step b c st = Some st1" and r: "run evs st1 = Some st'"
    by (auto split: option.splits)
  from Cons.prems ev have "positive_count c" by simp
  with Cons.prems(1) have "counts_positive st1" using s by (rule step_counts_positive)
  moreover from Cons.prems have "list_all (\<lambda>(b, c). positive_count c) evs" by simp
  ultimately show ?case using r by (rule Cons.IH)
qed

text \<open>
  C9, as amended. In every state reached by commands whose winner counts are all
  positive, every stored giveaway has a positive winner count: \<open>create\<close> and
  \<open>winner_count\<close> keep the invariant for every positive argument, and no other command
  changes a winner count.
\<close>

theorem winner_counts_stay_positive:
  assumes "list_all (\<lambda>(b, c). positive_count c) evs" and "run evs empty_db = Some st"
  shows "counts_positive st"
proof -
  have "counts_positive empty_db" by (simp add: counts_positive_def empty_db_def)
  then show ?thesis using assms by (rule run_counts_positive)
qed

text \<open>Witness for C9: a giveaway created for 2 winners and modified to 3.\<close>

theorem winner_counts_stay_positive_witness:
  "list_all (\<lambda>(b, c). positive_count c)
     [(guild7, Create ''Spring'' 2 [] True), (guild7, WinnerCount 3)] \<and>
   run [(guild7, Create ''Spring'' 2 [] True), (guild7, WinnerCount 3)] empty_db
     = Some (spring 3 []) \<and>
   counts_positive (spring 3 [])"
proof -
  have p: "list_all (\<lambda>(b, c). positive_count c)
     [(guild7, Create ''Spring'' 2 [] True), (guild7, WinnerCount 3)]" by simp
  have r: "run [(guild7, Create ''Spring'' 2 [] True), (guild7, WinnerCount 3)] empty_db
     = Some (spring 3 [])"
    by (simp add: create_defs fresh_id_def empty_db_def spring_def
        winner_count_def current_def get_giveaway_def set_win_count_def)
  from winner_counts_stay_positive [OF p r] p r show ?thesis by simp
qed

text \<open>
  C9 as claimed fails: neither command checks its argument. \<open>create\<close> with a winner
  count of 0 stores 0, and \<open>winner_count\<close> with -3 stores -3.
\<close>

theorem winner_count_not_positive:
  "map_option (\<lambda>st. map win_count (giveaways st))
     (run [(guild7, Create ''Spring'' 0 [] True)] empty_db) = Some [0] \<and>
   map_option (\<lambda>st. map win_count (giveaways st))
     (run [(guild7, Create ''Spring'' 1 [] True), (guild7, WinnerCount (- 3))] empty_db)
     = Some [- 3]"
  by (simp add: create_defs fresh_id_def empty_db_def
      winner_count_def current_def get_giveaway_def set_win_count_def)

section \<open>Joining twice\<close>

lemma queue_reset: "queue st = [] \<Longrightarrow> st\<lparr>queue := []\<rparr> = st"
  by (cases st) simp

lemma join_eligible:
  assumes "not_blacklisted c st" and "not_new b c"
    and "current st = Some g" and "ongoing g" and "queue st = []"
  shows "join b c st = process_entry b (st\<lparr>queue := [c]\<rparr>)"
  using assms by (simp add: join_def ongoing_raffle_def)

lemma find_snoc: "find P xs = None \<Longrightarrow> P y \<Longrightarrow> find P (xs @ [y]) = Some y"
  by (induction xs) (simp_all split: if_splits)

lemma get_entry_add_entry:
  "get_entry uid gid st = None \<Longrightarrow>
     get_entry uid gid (add_entry uid gid st)
       = Some \<lparr>entry_id = uid, entry_giveaway = gid, winner = False\<rparr>"
  by (simp add: get_entry_def add_entry_def find_snoc)

lemma current_add_entry: "current (add_entry uid gid st) = current st"
  by (simp add: current_def get_giveaway_def add_entry_def split: option.splits)

text \<open>
  C8. A participant who passes the checks of \<open>join\<close> (not blacklisted, not new, a
  giveaway is open, the role check passes) and holds no entry of the open giveaway yet is
  accepted by a first \<open>join\<close> and told \<open>AlreadyEntered\<close> by a second, which changes
  nothing; the ledger then holds exactly one entry of this participant for this giveaway.
\<close>

theorem join_twice:
  assumes bl: "not_blacklisted c st"
    and old: "not_new b c"
    and cur: "current st = Some g" and op: "ongoing g" and q: "queue st = []"
    and role: "raffle_roles (giveaway_id g) st = [] \<or> holds_cached_role c st \<or> holds_default_role b c"
    and new: "get_entry (author_id c) (giveaway_id g) st = None"
  shows "\<exists>st1. join b c st = Some (Inr [Accepted (author_id c)], st1) \<and>
     join b c st1 = Some (Inr [AlreadyEntered], st1) \<and>
     length (filter (\<lambda>e. entry_id e = author_id c \<and> entry_giveaway e = giveaway_id g)
               (entries st1)) = 1"
proof -
  let ?gid = "giveaway_id g" and ?uid = "author_id c"
  let ?st1 = "add_entry ?uid ?gid st"
  from cur have r: "raffle st = Some ?gid" by (simp add: current_SomeD)
  have first: "join b c st = Some (Inr [Accepted ?uid], ?st1)"
    using role new r q
    by (simp add: join_eligible [OF bl old cur op q] process_entry_def Let_def raffle_roles_def
        holds_cached_role_def get_entry_def add_entry_def queue_reset)
  have cur1: "current ?st1 = Some g" using cur by (simp add: current_add_entry)
  have bl1: "not_blacklisted c ?st1" using bl by (simp add: not_blacklisted_def add_entry_def)
  have q1: "queue ?st1 = []" using q by (simp add: add_entry_def)
  have role1: "raffle_roles ?gid ?st1 = [] \<or> holds_cached_role c ?st1 \<or> holds_default_role b c"
    using role by (simp add: raffle_roles_def holds_cached_role_def add_entry_def)
  have r1: "raffle ?st1 = Some ?gid" using r by (simp add: add_entry_def)
  have found: "get_entry ?uid ?gid (?st1\<lparr>queue := []\<rparr>)
      = Some \<lparr>entry_id = ?uid, entry_giveaway = ?gid, winner = False\<rparr>"
    using get_entry_add_entry [OF new] by (simp add: get_entry_def)
  have second: "join b c ?st1 = Some (Inr [AlreadyEntered], ?st1)"
    using role1 r1 found q1
    by (simp add: join_eligible [OF bl1 old cur1 op q1] process_entry_def Let_def raffle_roles_def
        holds_cached_role_def queue_reset)
  from new have "filter (\<lambda>e. entry_id e = ?uid \<and> entry_giveaway e = ?gid) (entries st) = []"
    by (auto simp: get_entry_def find_None_iff filter_empty_conv)
  then have one: "length (filter (\<lambda>e. entry_id e = ?uid \<and> entry_giveaway e = ?gid)
               (entries ?st1)) = 1"
    by (simp add: add_entry_def)
  from first second one show ?thesis by blast
qed

text \<open>Witness for C8: member 7 joins the open giveaway without entries twice.\<close>

theorem join_twice_witness:
  "join guild7 member7 (spring 1 []) = Some (Inr [Accepted 7], spring 1 [entry7 False]) \<and>
   join guild7 member7 (spring 1 [entry7 False]) = Some (Inr [AlreadyEntered], spring 1 [entry7 False]) \<and>
   length (filter (\<lambda>e. entry_id e = 7 \<and> entry_giveaway e = 1) (entries (spring 1 [entry7 False]))) = 1"
proof -
  let ?g = "\<lparr>giveaway_id = 1, name = ''Spring'', win_count = 1, ongoing = True\<rparr>"
  have "not_blacklisted member7 (spring 1 [])" by (simp add: not_blacklisted_def spring_def)
  moreover have "not_new guild7 member7" by (simp add: not_new_def guild7_def member7_def)
  moreover have "current (spring 1 []) = Some ?g" by (simp add: current_def get_giveaway_def spring_def)
  moreover have "ongoing ?g" by simp
  moreover have "queue (spring 1 []) = []" by (simp add: spring_def)
  moreover have "raffle_roles (giveaway_id ?g) (spring 1 []) = [] \<or> holds_cached_role member7 (spring 1 [])
      \<or> holds_default_role guild7 member7" by (simp add: raffle_roles_def spring_def)
  moreover have "get_entry (author_id member7) (giveaway_id ?g) (spring 1 []) = None"
    by (simp add: get_entry_def spring_def)
  ultimately obtain st1 where
    a: "join guild7 member7 (spring 1 []) = Some (Inr [Accepted (author_id member7)], st1)" and
    b: "join guild7 member7 st1 = Some (Inr [AlreadyEntered], st1)" and
    c: "length (filter (\<lambda>e. entry_id e = author_id member7 \<and> entry_giveaway e = giveaway_id ?g)
               (entries st1)) = 1"
    using join_twice [of member7 "spring 1 []" guild7 ?g] by blast
  have "join guild7 member7 (spring 1 []) = Some (Inr [Accepted 7], spring 1 [entry7 False])"
    by (simp add: join_defs process_entry_def ongoing_raffle_def current_def get_giveaway_def
        raffle_roles_def get_entry_def add_entry_def member7_def guild7_def entry7_def spring_def)
  with a have "st1 = spring 1 [entry7 False]" by simp
  with a b c show ?thesis by (simp add: member7_def)
qed

section \<open>Startup reconciliation\<close>

lemma get_role_Some:
  "get_role rid gid st = Some row \<Longrightarrow> role_id row = rid \<and> role_giveaway row = gid"
  by (auto simp: get_role_def find_Some_iff)

lemma get_role_None:
  "get_role rid gid st = None \<longleftrightarrow>
     \<not> (\<exists>x \<in> set (giveaway_roles st). role_id x = rid \<and> role_giveaway x = gid)"
  by (auto simp: get_role_def find_None_iff)

text \<open>
  What the loop over the role rows leaves when it ends without error: the rows of the
  giveaway whose role the guild does not have are gone, the ids of the others are
  appended to \<open>self.roles\<close>, nothing else has changed.
\<close>

lemma resolve_roles_result:
  "resolve_roles b gid rs st = Inr st' \<Longrightarrow>
     giveaway_roles st' =
       filter (\<lambda>x. \<not> (role_giveaway x = gid \<and> role_id x \<in> role_id ` set rs \<and>
                        role_id x \<notin> set (guild_roles b))) (giveaway_roles st) \<and>
     roles st' = roles st @
       map (\<lambda>r. Some (role_id r)) (filter (\<lambda>r. role_id r \<in> set (guild_roles b)) rs) \<and>
     giveaways st' = giveaways st \<and> entries st' = entries st \<and> blacklist st' = blacklist st \<and>
     raffle st' = raffle st \<and> queue st' = queue st"
proof (induction rs arbitrary: st)
  case Nil
  then show ?case by simp
next
  case (Cons r rs)
  show ?case
  proof (cases "role_id r \<in> set (guild_roles b)")
    case True
    with Cons.prems have "resolve_roles b gid rs (st\<lparr>roles := roles st @ [Some (role_id r)]\<rparr>) = Inr st'"
      by simp
    from Cons.IH [OF this] True show ?thesis
      by (auto intro!: filter_cong)
  next
    case False
    with Cons.prems obtain row where row: "get_role (role_id r) gid st = Some row"
      and rest: "resolve_roles b gid rs (delete_role row st) = Inr st'"
      by (auto split: option.splits)
    from get_role_Some [OF row] have key: "role_id row = role_id r" "role_giveaway row = gid"
      by simp_all
    from Cons.IH [OF rest] False key show ?thesis
      by (auto simp: delete_role_def intro!: filter_cong)
  qed
qed

lemma resolve_roles_succeeds:
  "distinct (map role_id rs) \<Longrightarrow> list_all (\<lambda>r. get_role (role_id r) gid st \<noteq> None) rs \<Longrightarrow>
     \<exists>st'. resolve_roles b gid rs st = Inr st'"
proof (induction rs arbitrary: st)
  case Nil
  then show ?case by simp
next
  case (Cons r rs)
  from Cons.prems have d: "distinct (map role_id rs)" and fresh: "role_id r \<notin> role_id ` set rs"
    and here: "get_role (role_id r) gid st \<noteq> None"
    and rest: "list_all (\<lambda>r. get_role (role_id r) gid st \<noteq> None) rs"
    by simp_all
  show ?case
  proof (cases "role_id r \<in> set (guild_roles b)")
    case True
    have "list_all (\<lambda>r'. get_role (role_id r') gid (st\<lparr>roles := roles st @ [Some (role_id r)]\<rparr>) \<noteq> None) rs"
      using rest by (simp add: get_role_def)
    from Cons.IH [OF d this] True show ?thesis by simp
  next
    case False
    from here obtain row where row: "get_role (role_id r) gid st = Some row" by auto
    from get_role_Some [OF row] have key: "role_id row = role_id r" "role_giveaway row = gid"
      by simp_all
    have "get_role (role_id r') gid (delete_role row st) \<noteq> None" if r': "r' \<in> set rs" for r'
    proof -
      from r' rest obtain x where x: "x \<in> set (giveaway_roles st)"
        and xk: "role_id x = role_id r'" "role_giveaway x = gid"
        by (auto simp: list_all_iff get_role_None)
      from r' fresh have "role_id r' \<noteq> role_id r" by (metis imageI)
      with x xk key have "x \<in> set (giveaway_roles (delete_role row st))"
        by (simp add: delete_role_def)
      with xk show ?thesis by (auto simp: get_role_None)
    qed
    then have "list_all (\<lambda>r'. get_role (role_id r') gid (delete_role row st) \<noteq> None) rs"
      by (simp add: list_all_iff)
    from Cons.IH [OF d this] False row show ?thesis by simp
  qed
qed

lemma raffle_roles_keys:
  assumes "distinct (map (\<lambda>r. (role_id r, role_giveaway r)) (giveaway_roles db))"
  shows "distinct (map role_id (raffle_roles gid db))"
proof -
  have "distinct (map (\<lambda>r. (role_id r, role_giveaway r)) (raffle_roles gid db))"
    unfolding raffle_roles_def using assms by (rule distinct_map_filter)
  moreover have "map (\<lambda>r. (role_id r, role_giveaway r)) (raffle_roles gid db)
      = map (\<lambda>i. (i, gid)) (map role_id (raffle_roles gid db))"
    by (simp add: raffle_roles_def)
  ultimately show ?thesis by (auto simp: distinct_map inj_on_def)
qed



section \<open>The role check\<close>

lemma fold_max_ge: "(a::int) \<le> fold max xs a"
proof (induction xs arbitrary: a)
  case Nil
  show ?case by simp
next
  case (Cons x xs)
  have "a \<le> max x a" by simp
  also have "\<dots> \<le> fold max xs (max x a)" by (rule Cons.IH)
  finally show ?case by simp
qed

lemma fold_max_upper: "x \<in> set xs \<Longrightarrow> (x::int) \<le> fold max xs a"
proof (induction xs arbitrary: a)
  case Nil
  then show ?case by simp
next
  case (Cons y xs)
  show ?case
  proof (cases "x = y")
    case True
    have "x \<le> max y a" using True by simp
    also have "\<dots> \<le> fold max xs (max y a)" by (rule fold_max_ge)
    finally show ?thesis by simp
  next
    case False
    with Cons.prems have "x \<in> set xs" by simp
    then show ?thesis by (simp add: Cons.IH)
  qed
qed

lemma fresh_id_new: "fresh_id st \<notin> giveaway_id ` set (giveaways st)"
proof
  assume "fresh_id st \<in> giveaway_id ` set (giveaways st)"
  then have "fresh_id st \<in> set (map giveaway_id (giveaways st))" by simp
  then have "fresh_id st \<le> fold max (map giveaway_id (giveaways st)) 0"
    by (rule fold_max_upper)
  then show False by (simp add: fresh_id_def)
qed

lemma refs_ok_no_roles:
  assumes "refs_ok st"
  shows "raffle_roles (fresh_id st) st = []"
proof -
  have "role_giveaway r \<noteq> fresh_id st" if "r \<in> set (giveaway_roles st)" for r
  proof -
    from that assms have "role_giveaway r \<in> giveaway_id ` set (giveaways st)"
      unfolding refs_ok_def by blast
    with fresh_id_new [of st] show ?thesis by metis
  qed
  then show ?thesis by (simp add: raffle_roles_def filter_empty_conv)
qed

lemma set_ongoing_ids [simp]:
  "map giveaway_id (giveaways (set_ongoing gid v st)) = map giveaway_id (giveaways st)"
  by (simp add: set_ongoing_def comp_def if_distrib [of giveaway_id])

lemma set_win_count_fields [simp]:
  "entries (set_win_count gid v st) = entries st"
  "giveaway_roles (set_win_count gid v st) = giveaway_roles st"
  "blacklist (set_win_count gid v st) = blacklist st"
  "raffle (set_win_count gid v st) = raffle st"
  "roles (set_win_count gid v st) = roles st"
  "queue (set_win_count gid v st) = queue st"
  by (simp_all add: set_win_count_def)

lemma set_win_count_ids [simp]:
  "map giveaway_id (giveaways (set_win_count gid v st)) = map giveaway_id (giveaways st)"
  by (simp add: set_win_count_def comp_def if_distrib [of giveaway_id])

lemma keeps_roles_refl: "keeps_roles st st"
  by (simp add: keeps_roles_def)

lemma keeps_roles_consistent:
  assumes "consistent st" and "keeps_roles st st'"
  shows "consistent st'"
proof -
  from assms(2) have ids: "giveaway_id ` set (giveaways st') = giveaway_id ` set (giveaways st)"
    unfolding keeps_roles_def by (metis set_map)
  from assms(2) have rr: "raffle_roles gid st' = raffle_roles gid st" for gid
    by (simp add: keeps_roles_def raffle_roles_def)
  from assms ids have "refs_ok st'" by (simp add: consistent_def refs_ok_def keeps_roles_def)
  moreover from assms rr have "cache_ok st'"
    by (auto simp: consistent_def cache_ok_def keeps_roles_def split: option.splits)
  moreover from assms have "queue st' = []" by (simp add: consistent_def keeps_roles_def)
  ultimately show ?thesis by (simp add: consistent_def)
qed

lemma process_entry_keeps:
  "process_entry b st = Some (out, st') \<Longrightarrow>
     queue st' = tl (queue st) \<and> giveaways st' = giveaways st \<and>
     giveaway_roles st' = giveaway_roles st \<and> roles st' = roles st \<and> raffle st' = raffle st"
  by (auto simp: process_entry_def Let_def add_entry_def split: list.splits option.splits if_splits)

lemma join_keeps:
  assumes "queue st = []" and "join b c st = Some (out, st')"
  shows "keeps_roles st st'"
proof (cases "process_entry b (st\<lparr>queue := queue st @ [c]\<rparr>) = Some (out, st')")
  case True
  from process_entry_keeps [OF True] assms(1) show ?thesis by (simp add: keeps_roles_def)
next
  case False
  with assms(2) have "st' = st" by (auto simp: join_defs split: if_splits)
  then show ?thesis by (simp add: keeps_roles_refl)
qed

lemma cancel_keeps: "keeps_roles st (snd (cancel answer st))"
  by (simp add: cancel_def keeps_roles_def split: option.splits)

lemma winner_count_keeps: "keeps_roles st (snd (winner_count v st))"
  by (simp add: winner_count_def keeps_roles_def split: option.splits)

lemma blacklist_keeps:
  "keeps_roles st (snd (blacklist_add m st))" "keeps_roles st (snd (blacklist_remove m st))"
  by (simp_all add: blacklist_add_def blacklist_remove_def keeps_roles_def)

lemma finish_draw_keeps: "keeps_roles st (snd (finish_draw b rnd gid k st))"
proof -
  obtain ws i st1 where d: "draw b rnd gid (nat k) 0 st = (ws, i, st1)"
    by (cases "draw b rnd gid (nat k) 0 st") auto
  from draw_frame [OF d] show ?thesis
    by (simp add: finish_draw_def d Let_def keeps_roles_def)
qed

lemma keeps_roles_trans: "keeps_roles st st1 \<Longrightarrow> keeps_roles st1 st2 \<Longrightarrow> keeps_roles st st2"
  by (auto simp: keeps_roles_def)

lemma set_ongoing_keeps: "keeps_roles st (set_ongoing gid v st)"
  by (simp add: keeps_roles_def)

lemma finish_keeps:
  assumes "finish b rnd st = Some (out, st')"
  shows "keeps_roles st st'"
proof (cases "current st")
  case None
  with assms show ?thesis by (simp add: finish_def keeps_roles_refl)
next
  case (Some g)
  show ?thesis
  proof (cases "ongoing g")
    case False
    with Some assms show ?thesis by (simp add: finish_def keeps_roles_refl)
  next
    case True
    with Some assms have "st' = snd (finish_draw b rnd (giveaway_id g) (win_count g)
        (set_ongoing (giveaway_id g) False st))"
      by (auto simp: finish_def split: option.splits)
    then show ?thesis
      using keeps_roles_trans [OF set_ongoing_keeps finish_draw_keeps] by simp
  qed
qed

lemma create_consistent:
  assumes "consistent st"
  shows "consistent (snd (create b nm winners rs answer st))"
proof (cases "raffle st = None \<and> answer")
  case False
  with assms show ?thesis by (auto simp: create_def)
next
  case True
  from assms have q: "queue st = []" and refs: "refs_ok st" by (simp_all add: consistent_def)
  let ?gid = "fresh_id st"
  let ?st1 = "st\<lparr>giveaways := giveaways st @
      [\<lparr>giveaway_id = ?gid, name = nm, win_count = winners, ongoing = True\<rparr>]\<rparr>"
  have refs1: "refs_ok ?st1" using refs by (auto simp: refs_ok_def)
  show ?thesis
  proof (cases "rs = []")
    case True
    have "raffle_roles ?gid (?st1\<lparr>raffle := Some ?gid\<rparr>) = []"
      using refs_ok_no_roles [OF refs] by (simp add: raffle_roles_def)
    then have "cache_ok (?st1\<lparr>raffle := Some ?gid\<rparr>)" by (simp add: cache_ok_def)
    moreover have "refs_ok (?st1\<lparr>raffle := Some ?gid\<rparr>)" using refs1 by (simp add: refs_ok_def)
    moreover have "snd (create b nm winners rs answer st) = ?st1\<lparr>raffle := Some ?gid\<rparr>"
      using True \<open>raffle st = None \<and> answer\<close> by (simp add: create_defs Let_def)
    ultimately show ?thesis using q by (simp add: consistent_def)
  next
    case False
    let ?st2 = "?st1\<lparr>giveaway_roles := giveaway_roles ?st1 @
        map (\<lambda>rid. \<lparr>role_id = rid, role_giveaway = ?gid\<rparr>) rs\<rparr>"
    have "snd (create b nm winners rs answer st) = ?st1 \<or>
        snd (create b nm winners rs answer st) = ?st2"
      using False \<open>raffle st = None \<and> answer\<close> by (simp add: create_defs Let_def)
    moreover have "refs_ok ?st2" using refs by (auto simp: refs_ok_def)
    moreover have "cache_ok ?st1" "cache_ok ?st2"
      using \<open>raffle st = None \<and> answer\<close> by (simp_all add: cache_ok_def)
    ultimately show ?thesis using q refs1 by (auto simp: consistent_def)
  qed
qed

lemma startup_consistent:
  assumes "refs_ok st" and "startup b st = Inr st'"
  shows "consistent st'"
proof (cases "filter ongoing (giveaways st)")
  case Nil
  with assms(2) have "st' = st\<lparr>raffle := None, roles := [], queue := []\<rparr>"
    by (simp add: startup_def)
  with assms(1) show ?thesis by (simp add: consistent_def refs_ok_def cache_ok_def)
next
  case (Cons g gs)
  with assms(2) have gs: "gs = []" by (cases gs) (simp_all add: startup_def)
  let ?gid = "giveaway_id g"
  let ?rs = "raffle_roles ?gid st"
  from assms(2) Cons gs obtain st1 where
    ok: "resolve_roles b ?gid ?rs (st\<lparr>raffle := Some ?gid, roles := []\<rparr>) = Inr st1"
    and st': "st' = st1\<lparr>queue := []\<rparr>"
    by (auto simp: startup_def split: sum.splits)
  note res = resolve_roles_result [OF ok]
  from res have gr: "giveaway_roles st' =
       filter (\<lambda>x. \<not> (role_giveaway x = ?gid \<and> role_id x \<in> role_id ` set ?rs \<and>
                        role_id x \<notin> set (guild_roles b))) (giveaway_roles st)"
    by (simp add: st')
  have rr: "raffle_roles ?gid st' = filter (\<lambda>r. role_id r \<in> set (guild_roles b)) ?rs"
    unfolding raffle_roles_def gr filter_filter
    by (rule filter_cong) (auto simp: raffle_roles_def)
  from res have "roles st' = map (\<lambda>r. Some (role_id r)) (filter (\<lambda>r. role_id r \<in> set (guild_roles b)) ?rs)"
    and "raffle st' = Some ?gid"
    by (simp_all add: st')
  with rr have cache: "cache_ok st'" by (simp add: cache_ok_def)
  from res have "giveaways st' = giveaways st" by (simp add: st')
  with gr assms(1) have "refs_ok st'" by (auto simp: refs_ok_def)
  with cache st' show ?thesis by (simp add: consistent_def)
qed

lemma step_consistent:
  assumes "consistent st" and "step b c st = Some st'"
  shows "consistent st'"
proof (cases c)
  case (Join x)
  with assms(2) obtain out where "join b x st = Some (out, st')" by auto
  with assms(1) have "keeps_roles st st'" by (simp add: join_keeps consistent_def)
  with assms(1) show ?thesis by (rule keeps_roles_consistent)
next
  case (Create nm winners rs answer)
  with assms create_consistent [of st b nm winners rs answer] show ?thesis by simp
next
  case (Cancel answer)
  with assms(2) have "st' = snd (cancel answer st)" by simp
  with assms(1) show ?thesis by (simp add: keeps_roles_consistent [OF _ cancel_keeps])
next
  case (Finish rnd)
  with assms(2) obtain out where "finish b rnd st = Some (out, st')" by auto
  then have "keeps_roles st st'" by (rule finish_keeps)
  with assms(1) show ?thesis by (rule keeps_roles_consistent)
next
  case (WinnerCount v)
  with assms(2) have "st' = snd (winner_count v st)" by simp
  with assms(1) show ?thesis by (simp add: keeps_roles_consistent [OF _ winner_count_keeps])
next
  case (BlacklistAdd m)
  with assms(2) have "st' = snd (blacklist_add m st)" by simp
  with assms(1) show ?thesis by (simp add: keeps_roles_consistent [OF _ blacklist_keeps(1)])
next
  case (BlacklistRemove m)
  with assms(2) have "st' = snd (blacklist_remove m st)" by simp
  with assms(1) show ?thesis by (simp add: keeps_roles_consistent [OF _ blacklist_keeps(2)])
next
  case Restart
  with assms(2) have "startup b st = Inr st'" by (simp split: sum.splits)
  moreover from assms(1) have "refs_ok st" by (simp add: consistent_def)
  ultimately show ?thesis by (rule startup_consistent [rotated])
qed

lemma run_consistent:
  "consistent st \<Longrightarrow> run evs st = Some st' \<Longrightarrow> consistent st'"
proof (induction evs arbitrary: st)
  case Nil
  then show ?case by simp
next
  case (Cons ev evs)
  obtain b c where ev: "ev = (b, c)" by (cases ev)
  with Cons.prems obtain st1 where s: "step b c st = Some st1" and r: "run evs st1 = Some st'"
    by (auto split: option.splits)
  from Cons.prems(1) s have "consistent st1" by (rule step_consistent)
  then show ?case using r by (rule Cons.IH)
qed

lemma reachable_consistent: "run evs empty_db = Some st \<Longrightarrow> consistent st"
  by (rule run_consistent [of empty_db])
     (simp_all add: consistent_def refs_ok_def cache_ok_def empty_db_def)

lemma cached_is_allowed:
  assumes "set (roles st) = (\<lambda>r. Some (role_id r)) ` set (raffle_roles gid st)"
  shows "holds_cached_role c st = holds_allowed_role c gid st"
  unfolding holds_cached_role_def holds_allowed_role_def list_ex_iff assms by auto

text \<open>
  C10. In every reachable state with an open giveaway, for a participant who passes the
  checks that run before (not blacklisted, not new): when the giveaway has AllowedRoles,
  \<open>join\<close> answers \<open>NotAllowedRole\<close> exactly when the participant holds none of them
  and none of the default roles; when it has none, \<open>join\<close> never answers
  \<open>NotAllowedRole\<close>. A request so denied leaves the state, and so the entries, as they
  were.
\<close>

theorem role_check:
  assumes reach: "run evs empty_db = Some st"
    and bl: "not_blacklisted c st"
    and old: "not_new b c"
    and cur: "current st = Some g" and op: "ongoing g"
  shows "\<exists>out st'. join b c st = Some (out, st') \<and>
     (if raffle_roles (giveaway_id g) st \<noteq> []
      then (out = Inr [NotAllowedRole]) =
             (\<not> holds_allowed_role c (giveaway_id g) st \<and> \<not> holds_default_role b c)
      else out \<noteq> Inr [NotAllowedRole]) \<and>
     (out = Inr [NotAllowedRole] \<longrightarrow> st' = st)"
proof -
  let ?gid = "giveaway_id g"
  from reach have inv: "consistent st" by (rule reachable_consistent)
  then have q: "queue st = []" by (simp add: consistent_def)
  from cur have r: "raffle st = Some ?gid" by (simp add: current_SomeD)
  have cached: "holds_cached_role c st = holds_allowed_role c ?gid st"
    if "raffle_roles ?gid st \<noteq> []"
  proof -
    from inv r that have "set (roles st) = (\<lambda>r. Some (role_id r)) ` set (raffle_roles ?gid st)"
      by (simp add: consistent_def cache_ok_def)
    then show ?thesis by (rule cached_is_allowed)
  qed
  have j: "join b c st = process_entry b (st\<lparr>queue := [c]\<rparr>)"
    by (rule join_eligible [OF bl old cur op q])
  show ?thesis
  proof (cases "raffle_roles ?gid st \<noteq> [] \<and>
      \<not> (holds_cached_role c st \<or> holds_default_role b c)")
    case True
    then have "join b c st = Some (Inr [NotAllowedRole], st)"
      using r q by (simp add: j process_entry_def Let_def raffle_roles_def
          holds_cached_role_def queue_reset)
    with True cached show ?thesis by simp
  next
    case False
    then have "join b c st = Some (Inr [AlreadyEntered], st) \<or>
        join b c st = Some (Inr [Accepted (author_id c)], add_entry (author_id c) ?gid st)"
      using r q
      by (cases "get_entry (author_id c) ?gid st")
         (simp_all add: j process_entry_def Let_def raffle_roles_def holds_cached_role_def
           get_entry_def add_entry_def queue_reset)
    with False cached show ?thesis by auto
  qed
qed

text \<open>
  Witness for C10: a giveaway restricted to role 5 is open after the failed \<open>create\<close>
  and a restart; member 7, who holds no role, is denied.
\<close>

theorem role_check_witness:
  "run [(guild7, Create ''Spring'' 1 [5] True), (guild7, Restart)] empty_db =
     Some \<lparr>giveaways = [\<lparr>giveaway_id = 1, name = ''Spring'', win_count = 1, ongoing = True\<rparr>],
           entries = [], giveaway_roles = [\<lparr>role_id = 5, role_giveaway = 1\<rparr>], blacklist = [],
           raffle = Some 1, roles = [Some 5], queue = []\<rparr> \<and>
   join guild7 member7
     \<lparr>giveaways = [\<lparr>giveaway_id = 1, name = ''Spring'', win_count = 1, ongoing = True\<rparr>],
      entries = [], giveaway_roles = [\<lparr>role_id = 5, role_giveaway = 1\<rparr>], blacklist = [],
      raffle = Some 1, roles = [Some 5], queue = []\<rparr> =
     Some (Inr [NotAllowedRole],
       \<lparr>giveaways = [\<lparr>giveaway_id = 1, name = ''Spring'', win_count = 1, ongoing = True\<rparr>],
        entries = [], giveaway_roles = [\<lparr>role_id = 5, role_giveaway = 1\<rparr>], blacklist = [],
        raffle = Some 1, roles = [Some 5], queue = []\<rparr>)"
proof -
  let ?g = "\<lparr>giveaway_id = 1, name = ''Spring'', win_count = 1, ongoing = True\<rparr>"
  let ?st = "\<lparr>giveaways = [?g],
      entries = [], giveaway_roles = [\<lparr>role_id = 5, role_giveaway = 1\<rparr>], blacklist = [],
      raffle = Some 1, roles = [Some 5], queue = []\<rparr>"
  let ?evs = "[(guild7, Create ''Spring'' 1 [5] True), (guild7, Restart)]"
  have reach: "run ?evs empty_db = Some ?st"
    by (simp add: create_defs fresh_id_def empty_db_def startup_def
        raffle_roles_def get_role_def guild7_def)
  have bl: "not_blacklisted member7 ?st" by (simp add: not_blacklisted_def)
  have old: "not_new guild7 member7" by (simp add: not_new_def guild7_def member7_def)
  have cur: "current ?st = Some ?g" by (simp add: current_def get_giveaway_def)
  have op: "ongoing ?g" by simp
  have rs: "raffle_roles (giveaway_id ?g) ?st \<noteq> []" by (simp add: raffle_roles_def)
  have no: "\<not> holds_allowed_role member7 (giveaway_id ?g) ?st \<and> \<not> holds_default_role guild7 member7"
    by (simp add: holds_allowed_role_def holds_default_role_def raffle_roles_def member7_def guild7_def)
  from role_check [OF reach bl old cur op] obtain out st' where
    "join guild7 member7 ?st = Some (out, st')"
    and "(if raffle_roles (giveaway_id ?g) ?st \<noteq> []
      then (out = Inr [NotAllowedRole]) =
             (\<not> holds_allowed_role member7 (giveaway_id ?g) ?st \<and> \<not> holds_default_role guild7 member7)
      else out \<noteq> Inr [NotAllowedRole])"
    and "out = Inr [NotAllowedRole] \<longrightarrow> st' = ?st"
    by blast
  with rs no have "join guild7 member7 ?st = Some (Inr [NotAllowedRole], ?st)" by simp
  with reach show ?thesis by simp
qed

section \<open>Restarts\<close>

lemma keeps_roles_keys:
  "keeps_roles st st' \<Longrightarrow> keys_ok st \<Longrightarrow> keys_ok st'"
  by (simp add: keeps_roles_def keys_ok_def)

lemma create_keys:
  assumes "refs_ok st" and "keys_ok st"
  shows "keys_ok (snd (create b nm winners rs answer st))"
proof -
  let ?gid = "fresh_id st"
  let ?new = "map (\<lambda>rid. \<lparr>role_id = rid, role_giveaway = ?gid\<rparr>) rs"
  have other: "role_giveaway r \<noteq> ?gid" if "r \<in> set (giveaway_roles st)" for r
  proof -
    from that assms(1) have "role_giveaway r \<in> giveaway_id ` set (giveaways st)"
      unfolding refs_ok_def by blast
    with fresh_id_new [of st] show ?thesis by metis
  qed
  have new: "distinct (map (\<lambda>r. (role_id r, role_giveaway r)) (giveaway_roles st @ ?new))"
    if "distinct rs"
  proof -
    have "map (\<lambda>r. (role_id r, role_giveaway r)) ?new = map (\<lambda>rid. (rid, ?gid)) rs"
      by simp
    moreover have "distinct (map (\<lambda>rid. (rid, ?gid)) rs)"
      using that by (simp add: distinct_map inj_on_def)
    moreover have "(\<lambda>r. (role_id r, role_giveaway r)) ` set (giveaway_roles st)
        \<inter> (\<lambda>rid. (rid, ?gid)) ` set rs = {}"
      using other by auto
    ultimately show ?thesis using assms(2) by (simp add: keys_ok_def comp_def)
  qed
  have "giveaway_roles (snd (create b nm winners rs answer st)) = giveaway_roles st \<or>
      distinct rs \<and> giveaway_roles (snd (create b nm winners rs answer st)) = giveaway_roles st @ ?new"
    by (auto simp: create_defs Let_def split: option.splits)
  with new assms(2) show ?thesis by (auto simp: keys_ok_def)
qed

lemma startup_keys:
  assumes "keys_ok st" and "startup b st = Inr st'"
  shows "keys_ok st'"
proof -
  have "\<exists>P. giveaway_roles st' = filter P (giveaway_roles st)"
  proof (cases "filter ongoing (giveaways st)")
    case Nil
    with assms(2) have "giveaway_roles st' = filter (\<lambda>r. True) (giveaway_roles st)"
      by (auto simp: startup_def)
    then show ?thesis by blast
  next
    case (Cons g gs)
    with assms(2) have gs: "gs = []" by (cases gs) (simp_all add: startup_def)
    from assms(2) Cons gs obtain st1 where
      ok: "resolve_roles b (giveaway_id g) (raffle_roles (giveaway_id g) st)
             (st\<lparr>raffle := Some (giveaway_id g), roles := []\<rparr>) = Inr st1"
      and st': "st' = st1\<lparr>queue := []\<rparr>"
      by (auto simp: startup_def split: sum.splits)
    from resolve_roles_result [OF ok] st' show ?thesis by auto
  qed
  then obtain P where "giveaway_roles st' = filter P (giveaway_roles st)" ..
  with assms(1) show ?thesis by (simp add: keys_ok_def distinct_map_filter)
qed

lemma step_keys:
  assumes "consistent st" and "keys_ok st" and "step b c st = Some st'"
  shows "keys_ok st'"
proof (cases c)
  case (Join x)
  with assms(3) obtain out where "join b x st = Some (out, st')" by auto
  with assms(1) have "keeps_roles st st'" by (simp add: join_keeps consistent_def)
  then show ?thesis using assms(2) by (rule keeps_roles_keys)
next
  case (Create nm winners rs answer)
  with assms create_keys [of st b nm winners rs answer] show ?thesis
    by (simp add: consistent_def)
next
  case (Cancel answer)
  with assms(3) have "st' = snd (cancel answer st)" by simp
  with assms(2) show ?thesis by (simp add: keeps_roles_keys [OF cancel_keeps])
next
  case (Finish rnd)
  with assms(3) obtain out where "finish b rnd st = Some (out, st')" by auto
  then have "keeps_roles st st'" by (rule finish_keeps)
  then show ?thesis using assms(2) by (rule keeps_roles_keys)
next
  case (WinnerCount v)
  with assms(3) have "st' = snd (winner_count v st)" by simp
  with assms(2) show ?thesis by (simp add: keeps_roles_keys [OF winner_count_keeps])
next
  case (BlacklistAdd m)
  with assms(3) have "st' = snd (blacklist_add m st)" by simp
  with assms(2) show ?thesis by (simp add: keeps_roles_keys [OF blacklist_keeps(1)])
next
  case (BlacklistRemove m)
  with assms(3) have "st' = snd (blacklist_remove m st)" by simp
  with assms(2) show ?thesis by (simp add: keeps_roles_keys [OF blacklist_keeps(2)])
next
  case Restart
  with assms(3) have "startup b st = Inr st'" by (simp split: sum.splits)
  with assms(2) show ?thesis by (rule startup_keys)
qed

lemma run_keys:
  "consistent st \<Longrightarrow> keys_ok st \<Longrightarrow> run evs st = Some st' \<Longrightarrow> keys_ok st'"
proof (induction evs arbitrary: st)
  case Nil
  then show ?case by simp
next
  case (Cons ev evs)
  obtain b c where ev: "ev = (b, c)" by (cases ev)
  with Cons.prems obtain st1 where s: "step b c st = Some st1" and r: "run evs st1 = Some st'"
    by (auto split: option.splits)
  from Cons.prems(1) s have "consistent st1" by (rule step_consistent)
  moreover from Cons.prems(1,2) s have "keys_ok st1" by (rule step_keys)
  ultimately show ?case using r by (rule Cons.IH)
qed

lemma reachable_keys: "run evs empty_db = Some st \<Longrightarrow> keys_ok st"
proof (rule run_keys [of empty_db])
  show "consistent empty_db"
    by (simp add: consistent_def refs_ok_def cache_ok_def empty_db_def)
  show "keys_ok empty_db" by (simp add: keys_ok_def empty_db_def)
qed

text \<open>
  Hence a restart of the process on any reachable ledger with one ongoing giveaway ends
  without error.
\<close>

lemma restart_succeeds:
  assumes "run evs empty_db = Some st" and "filter ongoing (giveaways st) = [g]"
  shows "\<exists>st'. step b Restart st = Some st' \<and> raffle st' = Some (giveaway_id g)"
proof -
  let ?gid = "giveaway_id g"
  let ?rs = "raffle_roles ?gid st"
  let ?st0 = "st\<lparr>raffle := Some ?gid, roles := []\<rparr>"
  from assms(1) have "keys_ok st" by (rule reachable_keys)
  then have "distinct (map role_id ?rs)" unfolding keys_ok_def by (rule raffle_roles_keys)
  moreover have "list_all (\<lambda>r. get_role (role_id r) ?gid ?st0 \<noteq> None) ?rs"
    by (auto simp: list_all_iff get_role_None raffle_roles_def)
  ultimately obtain st1 where ok: "resolve_roles b ?gid ?rs ?st0 = Inr st1"
    using resolve_roles_succeeds by blast
  with assms(2) have "startup b st = Inr (st1\<lparr>queue := []\<rparr>)" by (simp add: startup_def)
  with resolve_roles_result [OF ok] show ?thesis by simp
qed

text \<open>
  With the two ongoing giveaways that the failed \<open>create\<close> makes possible, a restart
  fails: \<open>scalar()\<close> raises \<open>MultipleResultsFound\<close>.
\<close>

lemma restart_fails_with_two_ongoing:
  "run [(guild7, Create ''A'' 1 [5] True), (guild7, Create ''B'' 1 [] True), (guild7, Restart)]
     empty_db = None"
  by (simp add: create_defs fresh_id_def empty_db_def startup_def)

section \<open>Further properties\<close>

text \<open>
  The draw resolves a winner at every step or at none: a resolvable entry stays in the
  pool, so once one is found every later step finds one too. The branch of \<open>finish\<close>
  for a winner list that is short but not empty is taken for no input.
\<close>

theorem draw_all_or_nothing:
  "length (resolved (fst (draw b rnd gid n i st)))
     = (if resolvable_entries b gid st = [] then 0 else n)"
proof -
  obtain ws i' st' where "draw b rnd gid n i st = (ws, i', st')"
    by (cases "draw b rnd gid n i st") auto
  with draw_winners [OF this] show ?thesis by simp
qed

text \<open>
  With the slot taken, \<open>create\<close> answers \<open>AlreadyRunning\<close> and stores nothing.
\<close>

theorem create_refused_while_open:
  "create b nm winners rs answer (st\<lparr>raffle := Some gid\<rparr>)
     = (Inr [AlreadyRunning], st\<lparr>raffle := Some gid\<rparr>)"
  by (simp add: create_def)

text \<open>
  From the empty slot, a confirmed \<open>create\<close> with any non-empty list of roles raises,
  leaves the slot empty and has stored the giveaway as ongoing.
\<close>

theorem create_with_roles_always_raises:
  assumes "raffle st = None" and "rs \<noteq> []"
  shows "\<exists>e st'. create b nm winners rs True st = (Inl e, st') \<and> raffle st' = None \<and>
     giveaways st' = giveaways st @
       [\<lparr>giveaway_id = fresh_id st, name = nm, win_count = winners, ongoing = True\<rparr>]"
  using assms by (simp add: create_defs Let_def)

theorem create_with_roles_always_raises_witness:
  "raffle empty_db = None \<and> [5, 6] \<noteq> ([]::int list) \<and>
   (\<exists>e st'. create guild7 ''Spring'' 1 [5, 6] True empty_db = (Inl e, st') \<and> raffle st' = None \<and>
     giveaways st' = [\<lparr>giveaway_id = 1, name = ''Spring'', win_count = 1, ongoing = True\<rparr>])"
proof -
  have a: "raffle empty_db = None" by (simp add: empty_db_def)
  have b: "[5, 6] \<noteq> ([]::int list)" by simp
  from create_with_roles_always_raises [OF a b, of guild7 "''Spring''" 1] a b
  show ?thesis by (simp add: fresh_id_def empty_db_def)
qed

text \<open>
  The wait of \<open>finish\<close> for the queue: on a queue that is not empty the loop of
  \<open>queue_empty\<close> does not end, so \<open>finish\<close> does not return and no draw is made.
\<close>

lemma queue_empty_returns: "queue_empty q = Some u \<Longrightarrow> q = []"
proof (rule queue_empty.raw_induct [where P = "\<lambda>q u. q = []"])
  fix f :: "ctx list \<Rightarrow> unit option" and q u
  assume IH: "\<And>q u. f q = Some u \<Longrightarrow> q = []"
    and eq: "(if q \<noteq> [] then f q else Some ()) = Some u"
  show "q = []"
  proof (cases "q = []")
    case True
    then show ?thesis .
  next
    case False
    with eq have "f q = Some u" by simp
    then show ?thesis by (rule IH)
  qed
qed

theorem finish_spins_on_pending_request:
  assumes "current st = Some g" and "ongoing g" and "queue st \<noteq> []"
  shows "finish b rnd st = None"
proof -
  have "queue_empty (queue st) = None"
  proof (cases "queue_empty (queue st)")
    case None
    then show ?thesis .
  next
    case (Some u)
    then have "queue st = []" by (rule queue_empty_returns)
    with assms(3) show ?thesis by simp
  qed
  with assms(1,2) show ?thesis by (simp add: finish_def)
qed

theorem finish_spins_on_pending_request_witness:
  "current ((spring 1 [])\<lparr>queue := [member7]\<rparr>)
     = Some \<lparr>giveaway_id = 1, name = ''Spring'', win_count = 1, ongoing = True\<rparr> \<and>
   queue ((spring 1 [])\<lparr>queue := [member7]\<rparr>) \<noteq> [] \<and>
   finish guild7 (\<lambda>i. 0) ((spring 1 [])\<lparr>queue := [member7]\<rparr>) = None"
proof -
  let ?g = "\<lparr>giveaway_id = 1, name = ''Spring'', win_count = 1, ongoing = True\<rparr>"
  have a: "current ((spring 1 [])\<lparr>queue := [member7]\<rparr>) = Some ?g"
    by (simp add: current_def get_giveaway_def spring_def)
  have b: "ongoing ?g" by simp
  have c: "queue ((spring 1 [])\<lparr>queue := [member7]\<rparr>) \<noteq> []" by simp
  from finish_spins_on_pending_request [OF a b c] a c show ?thesis by simp
qed

end
